theory Spec2Isabelle
  imports Main
begin

section \<open>Go library functions used by the package\<close>

text \<open>
  The package calls \<^verbatim>\<open>sort.Search\<close>, \<^verbatim>\<open>slices.BinarySearch\<close>, \<^verbatim>\<open>slices.Sort\<close> and the
  builtin \<^verbatim>\<open>copy\<close>. They are embedded here as the Go standard library defines them.
  Element and key types are \<^verbatim>\<open>cmp.Ordered\<close>; they are modelled by a linear order, which
  covers the integer and string instances (a float NaN is outside the model).
  Slice lengths are below \<open>2^63\<close>, so the midpoint \<^verbatim>\<open>int(uint(i+j) >> 1)\<close> never wraps and
  indices are natural numbers.
\<close>

text \<open>
  \<^verbatim>\<open>sort.Search(n, f)\<close>: \<^verbatim>\<open>i, j := 0, n; for i < j { h := int(uint(i+j) >> 1);
  if !f(h) { i = h + 1 } else { j = h } }; return i\<close>.
\<close>

function search_loop :: "(nat \<Rightarrow> bool) \<Rightarrow> nat \<Rightarrow> nat \<Rightarrow> nat" where
  "search_loop f i j =
     (if i < j then
        (let h = (i + j) div 2 in
         if \<not> f h then search_loop f (h + 1) j else search_loop f i h)
      else i)"
  by pat_completeness auto
termination
  by (relation "measure (\<lambda>(f, i, j). j - i)") auto

declare search_loop.simps [simp del]

definition Search :: "nat \<Rightarrow> (nat \<Rightarrow> bool) \<Rightarrow> nat" where
  "Search n f = search_loop f 0 n"

text \<open>
  \<^verbatim>\<open>slices.BinarySearch(x, target)\<close> runs the same loop with the test
  \<^verbatim>\<open>cmp.Less(x[h], target)\<close> in the place of \<^verbatim>\<open>!f(h)\<close>, and returns
  \<^verbatim>\<open>i, i < n && x[i] == target\<close>.
\<close>

definition BinarySearch :: "'a::linorder list \<Rightarrow> 'a \<Rightarrow> nat \<times> bool" where
  "BinarySearch x target =
     (let n = length x;
          i = search_loop (\<lambda>h. \<not> x ! h < target) 0 n
      in (i, i < n \<and> x ! i = target))"

text \<open>
  \<^verbatim>\<open>slices.Sort\<close> sorts ascending in place. On a linear order the ascending arrangement
  of a sequence is unique, so the result is the one of \<^const>\<open>sort\<close>.
\<close>

definition slices_Sort :: "'a::linorder list \<Rightarrow> 'a list" where
  "slices_Sort xs = sort xs"

text \<open>
  \<^verbatim>\<open>copy(s[d:], s[src:])\<close> inside one slice \<open>s\<close>: copies
  \<open>min (len s - d) (len s - src)\<close> elements, as \<^verbatim>\<open>memmove\<close> does (the source is read as
  it was before the call).
\<close>

definition copy_within :: "'a list \<Rightarrow> nat \<Rightarrow> nat \<Rightarrow> 'a list" where
  "copy_within s d src =
     (let n = min (length s - d) (length s - src)
      in take d s @ take n (drop src s) @ drop (d + n) s)"

section \<open>TSortedSlice (src/app/sortedlists.go, package sortedlists)\<close>

text \<open>
  The struct has the fields \<^verbatim>\<open>data\<close>, \<^verbatim>\<open>mtx\<close> and \<^verbatim>\<open>safe\<close>. The model is sequential:
  the mutex has no state of its own here, and a public method (which locks when
  \<^verbatim>\<open>safe\<close> is set and then calls the private one) is the private method.
  The fields carry the receiver's name as a prefix, since both structs of the package
  have a field \<^verbatim>\<open>data\<close>. The capacity of a slice is not observable through the methods
  and is not modelled.
\<close>

record 'a TSortedSlice =
  ss_data :: "'a list"
  ss_safe :: bool

datatype error = IndexOutOfRange

definition NewSlice :: "'a::linorder list \<Rightarrow> bool \<Rightarrow> 'a TSortedSlice" where
  "NewSlice aList aSafe =
     (let list = (if 0 < length aList then aList else [])
      in \<lparr>ss_data = slices_Sort list, ss_safe = aSafe\<rparr>)"

definition ss_Clear :: "'a TSortedSlice \<Rightarrow> 'a TSortedSlice" where
  "ss_Clear ss = ss\<lparr>ss_data := []\<rparr>"

definition ss_delete :: "'a::linorder \<Rightarrow> 'a TSortedSlice \<Rightarrow> bool \<times> 'a TSortedSlice" where
  "ss_delete aElement ss =
     (let sLen = length (ss_data ss) in
      if 0 = sLen then (False, ss)
      else
        (let (idx, ok) = BinarySearch (ss_data ss) aElement in
         if \<not> ok then (False, ss)
         else if idx < sLen \<and> ss_data ss ! idx = aElement then
           (if 0 = idx then
              (if 1 = sLen then (True, ss\<lparr>ss_data := []\<rparr>)
               else (True, ss\<lparr>ss_data := drop 1 (ss_data ss)\<rparr>))
            else if sLen - 1 = idx then (True, ss\<lparr>ss_data := take idx (ss_data ss)\<rparr>)
            else (True, ss\<lparr>ss_data := take idx (ss_data ss) @ drop (idx + 1) (ss_data ss)\<rparr>))
         else (False, ss)))"

definition ss_Delete :: "'a::linorder \<Rightarrow> 'a TSortedSlice \<Rightarrow> bool \<times> 'a TSortedSlice" where
  "ss_Delete aElement ss = ss_delete aElement ss"

definition ss_Data :: "'a TSortedSlice \<Rightarrow> 'a list" where
  "ss_Data ss = [] @ ss_data ss"

definition ss_findIndex :: "'a::linorder \<Rightarrow> 'a TSortedSlice \<Rightarrow> int" where
  "ss_findIndex aElement ss =
     (let sLen = length (ss_data ss) in
      if 0 = sLen then - 1
      else
        (let (idx, exists) = BinarySearch (ss_data ss) aElement in
         if \<not> exists then - 1
         else if idx < sLen \<and> ss_data ss ! idx = aElement then int idx
         else - 1))"

definition ss_FindIndex :: "'a::linorder \<Rightarrow> 'a TSortedSlice \<Rightarrow> int" where
  "ss_FindIndex aElement ss = ss_findIndex aElement ss"

text \<open>
  \<^verbatim>\<open>Get\<close> takes a Go \<^verbatim>\<open>int\<close>, which may be negative. The only test before
  \<^verbatim>\<open>ss.data[aIndex]\<close> is \<^verbatim>\<open>aIndex < len(ss.data)\<close>; indexing a slice with a negative
  index panics, which is the result \<open>Inl IndexOutOfRange\<close>. The zero value of the
  element type is the parameter \<open>zero\<close>.
\<close>

definition ss_Get :: "'a \<Rightarrow> 'a TSortedSlice \<Rightarrow> int \<Rightarrow> error + ('a \<times> bool)" where
  "ss_Get zero ss aIndex =
     (if aIndex < int (length (ss_data ss)) then
        (if aIndex < 0 then Inl IndexOutOfRange
         else Inr (ss_data ss ! nat aIndex, True))
      else Inr (zero, False))"

definition ss_insert :: "'a::linorder \<Rightarrow> 'a TSortedSlice \<Rightarrow> bool \<times> 'a TSortedSlice" where
  "ss_insert aElement ss =
     (let sLen = length (ss_data ss) in
      if 0 = sLen then (True, ss\<lparr>ss_data := ss_data ss @ [aElement]\<rparr>)
      else
        (let (idx, exists) = BinarySearch (ss_data ss) aElement in
         if \<not> exists then (True, ss\<lparr>ss_data := ss_data ss @ [aElement]\<rparr>)
         else if sLen = idx then (True, ss\<lparr>ss_data := ss_data ss @ [aElement]\<rparr>)
         else if ss_data ss ! idx \<noteq> aElement then
           (True, ss\<lparr>ss_data :=
              (copy_within (ss_data ss @ [aElement]) (idx + 1) idx)[idx := aElement]\<rparr>)
         else (False, ss)))"

definition ss_Insert :: "'a::linorder \<Rightarrow> 'a TSortedSlice \<Rightarrow> bool \<times> 'a TSortedSlice" where
  "ss_Insert aElement ss = ss_insert aElement ss"

text \<open>
  In \<^verbatim>\<open>rename\<close> the index \<open>idx\<close> is computed before the call of \<^verbatim>\<open>insert\<close> and used
  after it, in the branch where \<^verbatim>\<open>insert\<close> returned false and so left the slice as it
  was (lemma \<open>ss_insert_False_unchanged\<close> below): the access \<^verbatim>\<open>ss.data[idx]\<close> is in range.
\<close>

definition ss_rename :: "'a::linorder \<Rightarrow> 'a \<Rightarrow> 'a TSortedSlice \<Rightarrow> bool \<times> 'a TSortedSlice" where
  "ss_rename aOldValue aNewValue ss =
     (if 0 = length (ss_data ss) \<or> aOldValue = aNewValue then (False, ss)
      else
        (let idx = ss_findIndex aOldValue ss in
         if 0 > idx then ss_insert aNewValue ss
         else
           (let (inserted, ss1) = ss_insert aNewValue ss in
            if \<not> inserted then
              (if ss_data ss1 ! nat idx \<noteq> aNewValue then
                 (True, ss1\<lparr>ss_data := slices_Sort ((ss_data ss1)[nat idx := aNewValue])\<rparr>)
               else (False, ss1))
            else ss_delete aOldValue ss1)))"

definition ss_Rename :: "'a::linorder \<Rightarrow> 'a \<Rightarrow> 'a TSortedSlice \<Rightarrow> bool \<times> 'a TSortedSlice" where
  "ss_Rename aOldValue aNewValue ss = ss_rename aOldValue aNewValue ss"

section \<open>TSortedMap (src/sortedmap.go)\<close>

text \<open>
  The Go map \<^verbatim>\<open>data map[K]V\<close> is a partial function; \<^verbatim>\<open>_, exists := sm.data[k]\<close> is
  the test \<open>sm_data sm k \<noteq> None\<close>, and \<^verbatim>\<open>delete(sm.data, k)\<close> is
  \<open>(sm_data sm)(k := None)\<close>.
\<close>

record ('k, 'v) TSortedMap =
  sm_data :: "'k \<rightharpoonup> 'v"
  sm_keys :: "'k list"
  sm_safe :: bool

definition NewSortedMap :: "bool \<Rightarrow> ('k, 'v) TSortedMap" where
  "NewSortedMap aSafe = \<lparr>sm_data = Map.empty, sm_keys = [], sm_safe = aSafe\<rparr>"

definition sm_Clear :: "('k, 'v) TSortedMap \<Rightarrow> ('k, 'v) TSortedMap" where
  "sm_Clear sm = sm\<lparr>sm_data := Map.empty, sm_keys := []\<rparr>"

text \<open>
  The loop \<^verbatim>\<open>for idx, key := range sm.keys { if key == aKey { ...; break } }\<close> of
  \<^verbatim>\<open>delete\<close> and \<^verbatim>\<open>rename\<close> acts at the first index that holds the key, if there is one.
\<close>

fun first_index :: "'k list \<Rightarrow> 'k \<Rightarrow> nat option" where
  "first_index [] aKey = None"
| "first_index (key # ks) aKey =
     (if key = aKey then Some 0 else map_option Suc (first_index ks aKey))"

definition sm_delete :: "'k \<Rightarrow> ('k, 'v) TSortedMap \<Rightarrow> bool \<times> ('k, 'v) TSortedMap" where
  "sm_delete aKey sm =
     (if sm_data sm aKey \<noteq> None then
        (let d = (sm_data sm)(aKey := None);
             ks = (case first_index (sm_keys sm) aKey of
                     None \<Rightarrow> sm_keys sm
                   | Some idx \<Rightarrow> take idx (sm_keys sm) @ drop (idx + 1) (sm_keys sm))
         in (True, sm\<lparr>sm_data := d, sm_keys := ks\<rparr>))
      else (False, sm))"

definition sm_Delete :: "'k \<Rightarrow> ('k, 'v) TSortedMap \<Rightarrow> bool \<times> ('k, 'v) TSortedMap" where
  "sm_Delete aKey sm = sm_delete aKey sm"

text \<open>The zero value of the value type is the parameter \<open>zero\<close>.\<close>

definition sm_Get :: "'v \<Rightarrow> ('k, 'v) TSortedMap \<Rightarrow> 'k \<Rightarrow> 'v \<times> bool" where
  "sm_Get zero sm aKey =
     (case sm_data sm aKey of None \<Rightarrow> (zero, False) | Some v \<Rightarrow> (v, True))"

definition sm_Keys :: "('k, 'v) TSortedMap \<Rightarrow> 'k list" where
  "sm_Keys sm = [] @ sm_keys sm"

definition sm_insert ::
  "'k::linorder \<Rightarrow> 'v \<Rightarrow> ('k, 'v) TSortedMap \<Rightarrow> bool \<times> ('k, 'v) TSortedMap" where
  "sm_insert aKey aValue sm =
     (if sm_data sm aKey \<noteq> None then
        (True, sm\<lparr>sm_data := (sm_data sm)(aKey \<mapsto> aValue)\<rparr>)
      else
        (let sLen = length (sm_keys sm);
             ks =
               (if 0 = sLen then sm_keys sm @ [aKey]
                else
                  (let idx = Search sLen (\<lambda>i. sm_keys sm ! i \<ge> aKey) in
                   if sLen = idx then sm_keys sm @ [aKey]
                   else if sm_keys sm ! idx \<noteq> aKey then
                     (copy_within (sm_keys sm @ [aKey]) (idx + 1) idx)[idx := aKey]
                   else sm_keys sm))
         in (True, sm\<lparr>sm_keys := ks, sm_data := (sm_data sm)(aKey \<mapsto> aValue)\<rparr>)))"

definition sm_Insert ::
  "'k::linorder \<Rightarrow> 'v \<Rightarrow> ('k, 'v) TSortedMap \<Rightarrow> bool \<times> ('k, 'v) TSortedMap" where
  "sm_Insert aKey aValue sm = sm_insert aKey aValue sm"

definition sm_rename ::
  "'k::linorder \<Rightarrow> 'k \<Rightarrow> ('k, 'v) TSortedMap \<Rightarrow> bool \<times> ('k, 'v) TSortedMap" where
  "sm_rename aOldKey aNewKey sm =
     (if sm_data sm aNewKey \<noteq> None then (False, sm)
      else
        (case sm_data sm aOldKey of
           None \<Rightarrow> (False, sm)
         | Some oldValue \<Rightarrow>
             if aOldKey = aNewKey then (False, sm)
             else
               (let d = ((sm_data sm)(aOldKey := None))(aNewKey \<mapsto> oldValue);
                    ks = (case first_index (sm_keys sm) aOldKey of
                            None \<Rightarrow> sm_keys sm
                          | Some idx \<Rightarrow> (sm_keys sm)[idx := aNewKey])
                in (True, sm\<lparr>sm_data := d, sm_keys := slices_Sort ks\<rparr>))))"

definition sm_Rename ::
  "'k::linorder \<Rightarrow> 'k \<Rightarrow> ('k, 'v) TSortedMap \<Rightarrow> bool \<times> ('k, 'v) TSortedMap" where
  "sm_Rename aOldKey aNewKey sm = sm_rename aOldKey aNewKey sm"

section \<open>Sequences of operations\<close>

datatype 'a ss_op = SInsert 'a | SDelete 'a | SRename 'a 'a

fun ss_step :: "'a::linorder TSortedSlice \<Rightarrow> 'a ss_op \<Rightarrow> 'a TSortedSlice" where
  "ss_step ss (SInsert x) = snd (ss_Insert x ss)"
| "ss_step ss (SDelete x) = snd (ss_Delete x ss)"
| "ss_step ss (SRename x y) = snd (ss_Rename x y ss)"

definition ss_run :: "'a::linorder TSortedSlice \<Rightarrow> 'a ss_op list \<Rightarrow> 'a TSortedSlice" where
  "ss_run ss ops = foldl ss_step ss ops"

datatype ('k, 'v) sm_op = MInsert 'k 'v | MDelete 'k | MRename 'k 'k | MClear

fun sm_step :: "('k::linorder, 'v) TSortedMap \<Rightarrow> ('k, 'v) sm_op \<Rightarrow> ('k, 'v) TSortedMap" where
  "sm_step sm (MInsert k v) = snd (sm_Insert k v sm)"
| "sm_step sm (MDelete k) = snd (sm_Delete k sm)"
| "sm_step sm (MRename k k') = snd (sm_Rename k k' sm)"
| "sm_step sm MClear = sm_Clear sm"

definition sm_run :: "('k::linorder, 'v) TSortedMap \<Rightarrow> ('k, 'v) sm_op list \<Rightarrow> ('k, 'v) TSortedMap" where
  "sm_run sm ops = foldl sm_step sm ops"

text \<open>
  The operations of a sequence that stay inside the part of \<^verbatim>\<open>insert\<close> and \<^verbatim>\<open>rename\<close>
  where the new element is put at its place in the order: \<^verbatim>\<open>Insert(x)\<close> with \<open>x\<close> stored
  already or above every stored element, any \<^verbatim>\<open>Delete\<close>, and \<^verbatim>\<open>Rename(x, y)\<close> with
  \<open>y\<close> above every stored element, with \<open>x = y\<close>, or with \<open>x\<close> not stored and \<open>y\<close> stored.
\<close>

fun ss_op_in_order :: "'a::linorder TSortedSlice \<Rightarrow> 'a ss_op \<Rightarrow> bool" where
  "ss_op_in_order ss (SInsert x) =
     (x \<in> set (ss_data ss) \<or> (\<forall>z \<in> set (ss_data ss). z < x))"
| "ss_op_in_order ss (SDelete x) = True"
| "ss_op_in_order ss (SRename x y) =
     ((\<forall>z \<in> set (ss_data ss). z < y) \<or> x = y
      \<or> (x \<notin> set (ss_data ss) \<and> y \<in> set (ss_data ss)))"

fun ss_ops_in_order :: "'a::linorder TSortedSlice \<Rightarrow> 'a ss_op list \<Rightarrow> bool" where
  "ss_ops_in_order ss [] = True"
| "ss_ops_in_order ss (p # ps) = (ss_op_in_order ss p \<and> ss_ops_in_order (ss_step ss p) ps)"

text \<open>
  The invariant of the map: the key slice is strictly ascending and holds the keys of
  \<^verbatim>\<open>data\<close>, all of them and no other.
\<close>

definition sm_inv :: "('k::linorder, 'v) TSortedMap \<Rightarrow> bool" where
  "sm_inv sm \<longleftrightarrow> sorted_wrt (<) (sm_keys sm) \<and> set (sm_keys sm) = dom (sm_data sm)"

section \<open>The binary search and the shift\<close>

lemma search_loop_partition:
  assumes "i \<le> j" "j \<le> n"
    and "\<forall>k<i. \<not> f k"
    and "\<forall>k. j \<le> k \<and> k < n \<longrightarrow> f k"
    and "\<forall>a b. a \<le> b \<and> b < n \<and> f a \<longrightarrow> f b"
  shows "i \<le> search_loop f i j \<and> search_loop f i j \<le> j
       \<and> (\<forall>k<search_loop f i j. \<not> f k)
       \<and> (\<forall>k. search_loop f i j \<le> k \<and> k < n \<longrightarrow> f k)"
  using assms
proof (induction f i j rule: search_loop.induct)
  case (1 f i j)
  show ?case
  proof (cases "i < j")
    case False
    then have eq: "search_loop f i j = i"
      by (subst search_loop.simps) simp
    from False "1.prems"(1) have "i = j" by simp
    with "1.prems" show ?thesis unfolding eq by simp
  next
    case True
    define h where "h = (i + j) div 2"
    have hb: "i \<le> h" "h < j" using True by (simp_all add: h_def)
    show ?thesis
    proof (cases "f h")
      case fh: True
      have eq: "search_loop f i j = search_loop f i h"
        using True fh by (subst search_loop.simps) (simp add: h_def)
      have up: "\<forall>k. h \<le> k \<and> k < n \<longrightarrow> f k"
        using "1.prems"(5) fh by blast
      have "i \<le> search_loop f i h \<and> search_loop f i h \<le> h
         \<and> (\<forall>k<search_loop f i h. \<not> f k)
         \<and> (\<forall>k. search_loop f i h \<le> k \<and> k < n \<longrightarrow> f k)"
      proof (rule "1.IH"(2) [OF True h_def])
        show "\<not> \<not> f h" using fh by simp
        show "i \<le> h" by (rule hb(1))
        show "h \<le> n" using hb(2) "1.prems"(2) by simp
        show "\<forall>k<i. \<not> f k" by (rule "1.prems"(3))
        show "\<forall>k. h \<le> k \<and> k < n \<longrightarrow> f k" by (rule up)
        show "\<forall>a b. a \<le> b \<and> b < n \<and> f a \<longrightarrow> f b" by (rule "1.prems"(5))
      qed
      then show ?thesis using hb unfolding eq by auto
    next
      case nfh: False
      have eq: "search_loop f i j = search_loop f (h + 1) j"
        using True nfh by (subst search_loop.simps) (simp add: h_def)
      have hn: "h < n" using hb "1.prems"(2) by simp
      have low: "\<forall>k<h + 1. \<not> f k"
      proof (intro allI impI)
        fix k assume "k < h + 1"
        then have "k \<le> h" by simp
        with "1.prems"(5) hn nfh show "\<not> f k" by blast
      qed
      have "h + 1 \<le> search_loop f (h + 1) j \<and> search_loop f (h + 1) j \<le> j
         \<and> (\<forall>k<search_loop f (h + 1) j. \<not> f k)
         \<and> (\<forall>k. search_loop f (h + 1) j \<le> k \<and> k < n \<longrightarrow> f k)"
      proof (rule "1.IH"(1) [OF True h_def])
        show "\<not> f h" by (rule nfh)
        show "h + 1 \<le> j" using hb(2) by simp
        show "j \<le> n" by (rule "1.prems"(2))
        show "\<forall>k<h + 1. \<not> f k" by (rule low)
        show "\<forall>k. j \<le> k \<and> k < n \<longrightarrow> f k" by (rule "1.prems"(4))
        show "\<forall>a b. a \<le> b \<and> b < n \<and> f a \<longrightarrow> f b" by (rule "1.prems"(5))
      qed
      then show ?thesis using hb unfolding eq by auto
    qed
  qed
qed

lemma copy_within_shift:
  assumes "idx < length xs"
  shows "(copy_within (xs @ [e]) (idx + 1) idx)[idx := e] = take idx xs @ e # drop idx xs"
proof -
  have n: "min (length (xs @ [e]) - (idx + 1)) (length (xs @ [e]) - idx) = length xs - idx"
    using assms by simp
  have "copy_within (xs @ [e]) (idx + 1) idx = take (idx + 1) xs @ drop idx xs"
    using assms unfolding copy_within_def Let_def n by simp
  also have "\<dots> = take idx xs @ (xs ! idx) # drop idx xs"
    using assms by (simp add: take_Suc_conv_app_nth)
  finally show ?thesis using assms by (simp add: list_update_append)
qed

lemma insert_at_partition:
  fixes t :: "'a::linorder"
  assumes "r \<le> length xs"
    and "\<forall>k<r. xs ! k < t"
    and "\<forall>k. r \<le> k \<and> k < length xs \<longrightarrow> t \<le> xs ! k"
  shows "take r xs @ t # drop r xs = insort t xs"
  using assms
proof (induction xs arbitrary: r)
  case Nil
  then show ?case by simp
next
  case (Cons a xs)
  show ?case
  proof (cases r)
    case 0
    with Cons.prems(3) have "t \<le> a" by auto
    with 0 show ?thesis by simp
  next
    case (Suc r')
    with Cons.prems(2) have "a < t" by auto
    then have "\<not> t \<le> a" by simp
    moreover have "take r' xs @ t # drop r' xs = insort t xs"
    proof (rule Cons.IH)
      show "r' \<le> length xs" using Cons.prems(1) Suc by simp
      show "\<forall>k<r'. xs ! k < t" using Cons.prems(2) Suc by auto
      show "\<forall>k. r' \<le> k \<and> k < length xs \<longrightarrow> t \<le> xs ! k"
        using Cons.prems(3) Suc by auto
    qed
    ultimately show ?thesis using Suc by (simp add: leD)
  qed
qed

lemma search_loop_sorted:
  fixes t :: "'a::linorder"
  assumes "sorted xs"
  shows "search_loop (\<lambda>h. \<not> xs ! h < t) 0 (length xs) \<le> length xs
       \<and> (\<forall>k<search_loop (\<lambda>h. \<not> xs ! h < t) 0 (length xs). xs ! k < t)
       \<and> (\<forall>k. search_loop (\<lambda>h. \<not> xs ! h < t) 0 (length xs) \<le> k \<and> k < length xs
              \<longrightarrow> t \<le> xs ! k)"
proof -
  have mono: "\<forall>a b. a \<le> b \<and> b < length xs \<and> \<not> xs ! a < t \<longrightarrow> \<not> xs ! b < t"
  proof (intro allI impI)
    fix a b assume h: "a \<le> b \<and> b < length xs \<and> \<not> xs ! a < t"
    then have "xs ! a \<le> xs ! b" using assms by (simp add: sorted_nth_mono)
    with h show "\<not> xs ! b < t" by auto
  qed
  have "0 \<le> search_loop (\<lambda>h. \<not> xs ! h < t) 0 (length xs)
      \<and> search_loop (\<lambda>h. \<not> xs ! h < t) 0 (length xs) \<le> length xs
      \<and> (\<forall>k<search_loop (\<lambda>h. \<not> xs ! h < t) 0 (length xs). \<not> \<not> xs ! k < t)
      \<and> (\<forall>k. search_loop (\<lambda>h. \<not> xs ! h < t) 0 (length xs) \<le> k \<and> k < length xs
             \<longrightarrow> \<not> xs ! k < t)"
  proof (rule search_loop_partition [of 0 "length xs" "length xs" "\<lambda>h. \<not> xs ! h < t"])
    show "\<forall>a b. a \<le> b \<and> b < length xs \<and> \<not> xs ! a < t \<longrightarrow> \<not> xs ! b < t"
      by (rule mono)
    show "\<forall>k. length xs \<le> k \<and> k < length xs \<longrightarrow> \<not> xs ! k < t"
      by (simp add: not_less [symmetric])
  qed simp_all
  then have "search_loop (\<lambda>h. \<not> xs ! h < t) 0 (length xs) \<le> length xs"
    and lo: "\<forall>k<search_loop (\<lambda>h. \<not> xs ! h < t) 0 (length xs). xs ! k < t"
    and hi: "\<forall>k. search_loop (\<lambda>h. \<not> xs ! h < t) 0 (length xs) \<le> k \<and> k < length xs
             \<longrightarrow> \<not> xs ! k < t"
    by blast+
  moreover from hi
  have "\<forall>k. search_loop (\<lambda>h. \<not> xs ! h < t) 0 (length xs) \<le> k \<and> k < length xs
             \<longrightarrow> t \<le> xs ! k"
    using leI by blast
  ultimately show ?thesis by blast
qed

lemma Search_ge_eq:
  fixes t :: "'a::linorder"
  shows "Search (length xs) (\<lambda>i. xs ! i \<ge> t) = search_loop (\<lambda>h. \<not> xs ! h < t) 0 (length xs)"
  by (simp add: Search_def not_less)

lemma BinarySearch_fst:
  "fst (BinarySearch xs t) = search_loop (\<lambda>h. \<not> xs ! h < t) 0 (length xs)"
  by (simp add: BinarySearch_def Let_def)

lemma BinarySearch_snd:
  "snd (BinarySearch xs t) \<longleftrightarrow>
     fst (BinarySearch xs t) < length xs \<and> xs ! fst (BinarySearch xs t) = t"
  by (simp add: BinarySearch_def Let_def)

lemma BinarySearch_absent:
  "t \<notin> set xs \<Longrightarrow> \<not> snd (BinarySearch xs t)"
  by (metis BinarySearch_snd nth_mem)

lemma BinarySearch_present:
  fixes t :: "'a::linorder"
  assumes "sorted xs" "t \<in> set xs"
  shows "snd (BinarySearch xs t)"
proof -
  define r where "r = search_loop (\<lambda>h. \<not> xs ! h < t) 0 (length xs)"
  from search_loop_sorted [OF assms(1), of t]
  have lo: "\<forall>k<r. xs ! k < t" and hi: "\<forall>k. r \<le> k \<and> k < length xs \<longrightarrow> t \<le> xs ! k"
    by (simp_all add: r_def)
  from assms(2) obtain k where k: "k < length xs" "xs ! k = t"
    by (auto simp: in_set_conv_nth)
  have rk: "r \<le> k"
  proof (rule ccontr)
    assume "\<not> r \<le> k"
    then have "xs ! k < t" using lo by simp
    with k show False by simp
  qed
  then have rn: "r < length xs" using k by simp
  have "t \<le> xs ! r" using hi rn by simp
  moreover have "xs ! r \<le> xs ! k" by (rule sorted_nth_mono [OF assms(1) rk k(1)])
  ultimately have "xs ! r = t" using k by simp
  with rn show ?thesis by (simp add: BinarySearch_snd BinarySearch_fst r_def)
qed

section \<open>Facts about the methods of TSortedSlice\<close>

lemma ss_insert_cases:
  "ss_insert x ss =
     (if snd (BinarySearch (ss_data ss) x) then (False, ss)
      else (True, ss\<lparr>ss_data := ss_data ss @ [x]\<rparr>))"
proof (cases "ss_data ss = []")
  case True
  then show ?thesis
    by (simp add: ss_insert_def BinarySearch_snd)
next
  case False
  show ?thesis
  proof (cases "BinarySearch (ss_data ss) x")
    case (Pair idx ex)
    with False show ?thesis
      using BinarySearch_snd [of "ss_data ss" x]
      by (auto simp: ss_insert_def Let_def)
  qed
qed

lemma ss_insert_False_unchanged:
  "fst (ss_insert x ss) = False \<Longrightarrow> snd (ss_insert x ss) = ss"
  by (simp add: ss_insert_cases split: if_splits)

lemma sorted_wrt_remove_nth:
  "sorted_wrt P xs \<Longrightarrow> sorted_wrt P (take i xs @ drop (Suc i) xs)"
proof -
  assume a: "sorted_wrt P xs"
  have "sorted_wrt P (take i xs @ drop i xs)" using a by simp
  then have cross: "\<forall>x\<in>set (take i xs). \<forall>y\<in>set (drop i xs). P x y"
    unfolding sorted_wrt_append by blast
  have "set (drop (Suc i) xs) \<subseteq> set (drop i xs)"
    by (rule set_drop_subset_set_drop) simp
  with cross have "\<forall>x\<in>set (take i xs). \<forall>y\<in>set (drop (Suc i) xs). P x y"
    by blast
  with a show ?thesis
    by (simp add: sorted_wrt_append sorted_wrt_take sorted_wrt_drop)
qed


lemma ss_delete_data:
  "\<exists>i. ss_data (snd (ss_delete x ss)) = ss_data ss
     \<or> ss_data (snd (ss_delete x ss)) = take i (ss_data ss) @ drop (Suc i) (ss_data ss)"
proof (cases "BinarySearch (ss_data ss) x")
  case (Pair idx ok)
  show ?thesis
  proof (cases "ok \<and> ss_data ss \<noteq> []")
    case False
    with Pair have "snd (ss_delete x ss) = ss"
      by (auto simp: ss_delete_def Let_def)
    then show ?thesis by simp
  next
    case True
    with Pair BinarySearch_snd [of "ss_data ss" x]
    have idx: "idx < length (ss_data ss)" "ss_data ss ! idx = x" by simp_all
    have "ss_data (snd (ss_delete x ss)) = take idx (ss_data ss) @ drop (Suc idx) (ss_data ss)"
      using True Pair idx by (auto simp: ss_delete_def Let_def)
    then show ?thesis by blast
  qed
qed

lemma ss_delete_sorted_wrt:
  "sorted_wrt P (ss_data ss) \<Longrightarrow> sorted_wrt P (ss_data (snd (ss_delete x ss)))"
  using ss_delete_data [of x ss] by (auto simp: sorted_wrt_remove_nth)

lemma ss_insert_present:
  "sorted (ss_data ss) \<Longrightarrow> x \<in> set (ss_data ss) \<Longrightarrow> ss_insert x ss = (False, ss)"
  by (simp add: ss_insert_cases BinarySearch_present)

lemma ss_insert_absent:
  "x \<notin> set (ss_data ss) \<Longrightarrow> ss_insert x ss = (True, ss\<lparr>ss_data := ss_data ss @ [x]\<rparr>)"
  by (simp add: ss_insert_cases BinarySearch_absent)

lemma ss_insert_in_order:
  assumes "sorted_wrt (<) (ss_data ss)"
    and "x \<in> set (ss_data ss) \<or> (\<forall>z \<in> set (ss_data ss). z < x)"
  shows "sorted_wrt (<) (ss_data (snd (ss_insert x ss)))"
proof (cases "x \<in> set (ss_data ss)")
  case True
  with assms(1) show ?thesis by (simp add: ss_insert_present strict_sorted_iff)
next
  case False
  with assms(2) have "\<forall>z \<in> set (ss_data ss). z < x" by simp
  with assms(1) False show ?thesis by (simp add: ss_insert_absent sorted_wrt_append)
qed

lemma ss_findIndex_found:
  "0 \<le> ss_findIndex x ss \<Longrightarrow>
     x \<in> set (ss_data ss) \<and> nat (ss_findIndex x ss) < length (ss_data ss)
     \<and> ss_data ss ! nat (ss_findIndex x ss) = x"
  by (cases "BinarySearch (ss_data ss) x")
     (auto simp: ss_findIndex_def Let_def split: if_splits)

lemma ss_rename_in_order:
  assumes s: "sorted_wrt (<) (ss_data ss)"
    and o: "(\<forall>z \<in> set (ss_data ss). z < y) \<or> x = y
            \<or> (x \<notin> set (ss_data ss) \<and> y \<in> set (ss_data ss))"
  shows "sorted_wrt (<) (ss_data (snd (ss_rename x y ss)))"
proof (cases "ss_data ss = [] \<or> x = y")
  case True
  with s show ?thesis by (auto simp: ss_rename_def)
next
  case ne: False
  show ?thesis
  proof (cases "0 > ss_findIndex x ss")
    case True
    have "sorted_wrt (<) (ss_data (snd (ss_insert y ss)))"
      using s o ne by (intro ss_insert_in_order) auto
    with True ne show ?thesis by (simp add: ss_rename_def Let_def)
  next
    case False
    then have xin: "x \<in> set (ss_data ss)" using ss_findIndex_found [of x ss] by simp
    with o ne have less: "\<forall>z \<in> set (ss_data ss). z < y" by auto
    then have "y \<notin> set (ss_data ss)" by auto
    then have ins: "ss_insert y ss = (True, ss\<lparr>ss_data := ss_data ss @ [y]\<rparr>)"
      by (rule ss_insert_absent)
    have "sorted_wrt (<) (ss_data (ss\<lparr>ss_data := ss_data ss @ [y]\<rparr>))"
      using s less by (simp add: sorted_wrt_append)
    then have "sorted_wrt (<) (ss_data (snd (ss_delete x (ss\<lparr>ss_data := ss_data ss @ [y]\<rparr>))))"
      by (rule ss_delete_sorted_wrt)
    with False ne ins show ?thesis by (simp add: ss_rename_def Let_def)
  qed
qed

lemma ss_step_in_order:
  "sorted_wrt (<) (ss_data ss) \<Longrightarrow> ss_op_in_order ss p \<Longrightarrow>
   sorted_wrt (<) (ss_data (ss_step ss p))"
proof (cases p)
  case (SInsert x)
  assume "sorted_wrt (<) (ss_data ss)" "ss_op_in_order ss p"
  with SInsert show ?thesis by (simp add: ss_Insert_def ss_insert_in_order)
next
  case (SDelete x)
  assume "sorted_wrt (<) (ss_data ss)" "ss_op_in_order ss p"
  with SDelete show ?thesis by (simp add: ss_Delete_def ss_delete_sorted_wrt)
next
  case (SRename x y)
  assume "sorted_wrt (<) (ss_data ss)" "ss_op_in_order ss p"
  with SRename show ?thesis by (simp add: ss_Rename_def ss_rename_in_order)
qed

lemma ss_run_in_order:
  "sorted_wrt (<) (ss_data ss) \<Longrightarrow> ss_ops_in_order ss ps \<Longrightarrow>
   sorted_wrt (<) (ss_data (ss_run ss ps))"
  unfolding ss_run_def
  by (induction ps arbitrary: ss) (simp_all add: ss_step_in_order)

lemma NewSlice_sorted: "sorted (ss_data (NewSlice aList aSafe))"
  by (simp add: NewSlice_def slices_Sort_def)

lemma NewSlice_distinct: "distinct (ss_data (NewSlice aList aSafe)) = distinct aList"
  by (simp add: NewSlice_def slices_Sort_def)

lemma ss_findIndex_present:
  assumes "sorted (ss_data ss)" "x \<in> set (ss_data ss)"
  shows "0 \<le> ss_findIndex x ss"
proof -
  have ne: "ss_data ss \<noteq> []" using assms(2) by auto
  have "snd (BinarySearch (ss_data ss) x)" using assms by (rule BinarySearch_present)
  then show ?thesis
    using ne BinarySearch_snd [of "ss_data ss" x]
    by (cases "BinarySearch (ss_data ss) x") (simp add: ss_findIndex_def Let_def)
qed

lemma list_update_duplicates:
  assumes "i < length xs" "y \<in> set xs" "xs ! i \<noteq> y"
  shows "\<not> distinct (xs[i := y])"
proof -
  from assms(2) obtain j where j: "j < length xs" "xs ! j = y"
    by (auto simp: in_set_conv_nth)
  with assms(3) have ij: "i \<noteq> j" by auto
  have "xs[i := y] ! i = xs[i := y] ! j" using assms(1) j ij by simp
  show ?thesis
  proof
    assume "distinct (xs[i := y])"
    then have "(xs[i := y] ! i = xs[i := y] ! j) = (i = j)"
      by (rule nth_eq_iff_index_eq) (use assms(1) j(1) in simp_all)
    with \<open>xs[i := y] ! i = xs[i := y] ! j\<close> ij show False by simp
  qed
qed

lemma ss_rename_onto_present:
  assumes "sorted (ss_data ss)" "x \<in> set (ss_data ss)" "y \<in> set (ss_data ss)" "x \<noteq> y"
  shows "fst (ss_rename x y ss) = True \<and> \<not> distinct (ss_data (snd (ss_rename x y ss)))"
proof -
  have ne: "ss_data ss \<noteq> []" using assms(2) by auto
  have idx: "0 \<le> ss_findIndex x ss" using assms(1,2) by (rule ss_findIndex_present)
  then have at: "nat (ss_findIndex x ss) < length (ss_data ss)"
    "ss_data ss ! nat (ss_findIndex x ss) = x"
    using ss_findIndex_found [of x ss] by simp_all
  have ins: "ss_insert y ss = (False, ss)" using assms(1,3) by (rule ss_insert_present)
  have eq: "ss_rename x y ss =
      (True, ss\<lparr>ss_data := slices_Sort ((ss_data ss)[nat (ss_findIndex x ss) := y])\<rparr>)"
    using ne idx at ins assms(4) by (simp add: ss_rename_def Let_def)
  have "\<not> distinct ((ss_data ss)[nat (ss_findIndex x ss) := y])"
    using at assms(3,4) by (intro list_update_duplicates) simp_all
  then show ?thesis by (simp add: eq slices_Sort_def)
qed

lemma ss_Insert_Delete_above:
  assumes "sorted (ss_data ss)" "\<forall>z \<in> set (ss_data ss). z < x"
  shows "ss_Delete x (snd (ss_Insert x ss)) = (True, ss)"
proof -
  let ?xs = "ss_data ss"
  let ?ys = "?xs @ [x]"
  have nin: "x \<notin> set ?xs" using assms(2) by auto
  then have ins: "snd (ss_Insert x ss) = ss\<lparr>ss_data := ?ys\<rparr>"
    by (simp add: ss_Insert_def ss_insert_absent)
  have "sorted ?ys" using assms by (auto simp: sorted_append less_imp_le)
  then have found: "snd (BinarySearch ?ys x)" by (rule BinarySearch_present) simp
  obtain idx where bs: "BinarySearch ?ys x = (idx, True)"
    using found by (cases "BinarySearch ?ys x") simp
  from found bs have idx: "idx < length ?ys" "?ys ! idx = x"
    using BinarySearch_snd [of ?ys x] by simp_all
  have "\<not> idx < length ?xs"
  proof
    assume "idx < length ?xs"
    with idx(2) have "?xs ! idx = x" by (simp add: nth_append)
    with \<open>idx < length ?xs\<close> nin show False by (metis nth_mem)
  qed
  with idx(1) have "idx = length ?xs" by simp
  with bs show ?thesis
    by (cases "?xs = []") (auto simp: ins ss_Delete_def ss_delete_def Let_def)
qed

section \<open>The order of the sorted slice\<close>

text \<open>
  Claim C1 says that the slice seen through \<^verbatim>\<open>Data()\<close> is strictly ascending after
  \<^verbatim>\<open>NewSlice\<close> and any sequence of \<^verbatim>\<open>Insert\<close>, \<^verbatim>\<open>Delete\<close> and \<^verbatim>\<open>Rename\<close>. It fails
  on the code. \<^verbatim>\<open>NewSlice\<close> sorts the list it is given and keeps its duplicates, so
  \<^verbatim>\<open>NewSlice([1, 1])\<close> holds \<open>[1, 1]\<close> before any operation; and \<^verbatim>\<open>insert\<close> appends
  an element that the binary search does not find, so \<^verbatim>\<open>Insert(2); Insert(1)\<close> on the
  empty slice gives \<open>[2, 1]\<close>.
\<close>

theorem ss_Data_not_always_strictly_ascending:
  "\<not> sorted_wrt (<) (ss_Data (ss_run (NewSlice [1, 1 :: int] False) []))
   \<and> \<not> sorted_wrt (<) (ss_Data (ss_run (NewSlice [] False) [SInsert 2, SInsert (1::int)]))"
  by code_simp

text \<open>
  Claim C1, amended. When the list given to \<^verbatim>\<open>NewSlice\<close> has no duplicates, \<^verbatim>\<open>Data()\<close>
  is strictly ascending (so without duplicates) after every sequence of \<^verbatim>\<open>Delete\<close>
  operations, of \<^verbatim>\<open>Insert(x)\<close> operations whose \<open>x\<close> is stored already or is above
  every stored element, and of \<^verbatim>\<open>Rename(x, y)\<close> operations whose \<open>y\<close> is above every
  stored element, or equal to \<open>x\<close>, or stored while \<open>x\<close> is not.
\<close>

theorem ss_Data_strictly_ascending_in_order:
  "distinct aList \<Longrightarrow> ss_ops_in_order (NewSlice aList aSafe) ps \<Longrightarrow>
   sorted_wrt (<) (ss_Data (ss_run (NewSlice aList aSafe) ps))"
proof -
  assume d: "distinct aList" and g: "ss_ops_in_order (NewSlice aList aSafe) ps"
  have "sorted_wrt (<) (ss_data (NewSlice aList aSafe))"
    using d by (simp add: strict_sorted_iff NewSlice_sorted NewSlice_distinct)
  then have "sorted_wrt (<) (ss_data (ss_run (NewSlice aList aSafe) ps))"
    using g by (rule ss_run_in_order)
  then show ?thesis by (simp add: ss_Data_def)
qed

theorem ss_Data_strictly_ascending_in_order_witness:
  "distinct [5, 3, 4, 1, 2 :: int]
   \<and> ss_ops_in_order (NewSlice [5, 3, 4, 1, 2 :: int] False) [SInsert 6, SDelete 3, SRename 4 7]
   \<and> ss_Data (ss_run (NewSlice [5, 3, 4, 1, 2 :: int] False) [SInsert 6, SDelete 3, SRename 4 7])
       = [1, 2, 5, 6, 7]
   \<and> sorted_wrt (<)
       (ss_Data (ss_run (NewSlice [5, 3, 4, 1, 2 :: int] False) [SInsert 6, SDelete 3, SRename 4 7]))"
proof -
  have d: "distinct [5, 3, 4, 1, 2 :: int]" by simp
  have g: "ss_ops_in_order (NewSlice [5, 3, 4, 1, 2 :: int] False) [SInsert 6, SDelete 3, SRename 4 7]"
    by code_simp
  have v: "ss_Data (ss_run (NewSlice [5, 3, 4, 1, 2 :: int] False) [SInsert 6, SDelete 3, SRename 4 7])
       = [1, 2, 5, 6, 7]"
    by code_simp
  from ss_Data_strictly_ascending_in_order [OF d g] d g v show ?thesis by blast
qed

section \<open>Insert, Rename and Delete of the sorted slice\<close>

text \<open>
  Claim C2. On a sorted slice \<^verbatim>\<open>Insert(x)\<close> leaves the state as it is and returns false
  when \<open>x\<close> is stored, and otherwise puts \<open>x\<close> at the insertion point of the binary
  search, the later elements shifted right, so that the slice is sorted again, and returns
  true.
  The first half holds (lemma \<open>ss_insert_present\<close>). The second does not: \<^verbatim>\<open>insert\<close>
  appends whenever the search reports \<^verbatim>\<open>!exists\<close> (lemma \<open>ss_insert_absent\<close>), and the
  branch that shifts is behind that test. The theorem evaluates \<^verbatim>\<open>Insert(0)\<close> on the slice
  \<open>[1, 2, 3]\<close>.
\<close>

theorem ss_Insert_absent_appended:
  "ss_Insert (0::int) (NewSlice [1, 2, 3] False)
     = (True, \<lparr>ss_data = [1, 2, 3, 0], ss_safe = False\<rparr>)
   \<and> \<not> sorted (ss_Data (snd (ss_Insert (0::int) (NewSlice [1, 2, 3] False))))"
  by code_simp

text \<open>
  Claim C3. When both \<open>oldValue\<close> and \<open>newValue\<close> are stored and differ,
  \<^verbatim>\<open>Rename(oldValue, newValue)\<close> leaves no duplicate.
  On the code \<^verbatim>\<open>insert(newValue)\<close> returns false, the slot of \<open>oldValue\<close> is overwritten
  with \<open>newValue\<close> and the slice is sorted: \<open>newValue\<close> is stored twice, on every sorted
  slice (lemma \<open>ss_rename_onto_present\<close>). The theorem evaluates \<^verbatim>\<open>Rename(1, 3)\<close> on
  \<open>[1, 2, 3]\<close>.
\<close>

theorem ss_Rename_onto_present_duplicates:
  "ss_Rename (1::int) 3 (NewSlice [1, 2, 3] False)
     = (True, \<lparr>ss_data = [2, 3, 3], ss_safe = False\<rparr>)
   \<and> \<not> distinct (ss_Data (snd (ss_Rename (1::int) 3 (NewSlice [1, 2, 3] False))))"
  by code_simp

text \<open>
  Claim C4. On a strictly ascending slice \<open>S\<close> that does not hold \<open>x\<close>, \<^verbatim>\<open>Insert(x)\<close>
  followed by \<^verbatim>\<open>Delete(x)\<close> gives \<open>S\<close> back.
  This holds when \<open>x\<close> is above every element of \<open>S\<close> (lemma \<open>ss_Insert_Delete_above\<close>).
  Otherwise \<^verbatim>\<open>insert\<close> has appended \<open>x\<close> behind larger elements, where the binary search
  of \<^verbatim>\<open>delete\<close> does not find it. The theorem evaluates \<^verbatim>\<open>Insert(0); Delete(0)\<close> on
  \<open>[1, 2, 3]\<close>: \<^verbatim>\<open>Delete\<close> returns false and the slice is \<open>[1, 2, 3, 0]\<close>.
\<close>

theorem ss_Insert_Delete_not_restored:
  "ss_Delete (0::int) (snd (ss_Insert 0 (NewSlice [1, 2, 3] False)))
     = (False, \<lparr>ss_data = [1, 2, 3, 0], ss_safe = False\<rparr>)
   \<and> ss_Data (snd (ss_Delete (0::int) (snd (ss_Insert 0 (NewSlice [1, 2, 3] False)))))
     \<noteq> ss_Data (NewSlice [1, 2, 3] False)"
  by code_simp

section \<open>Get\<close>

lemma ss_Get_above:
  "int (length (ss_data ss)) \<le> aIndex \<Longrightarrow> ss_Get zero ss aIndex = Inr (zero, False)"
  by (simp add: ss_Get_def)

lemma ss_Get_in_range:
  "0 \<le> aIndex \<Longrightarrow> aIndex < int (length (ss_data ss)) \<Longrightarrow>
   ss_Get zero ss aIndex = Inr (ss_data ss ! nat aIndex, True)"
  by (simp add: ss_Get_def)

lemma ss_Get_empty_nonneg:
  "ss_data ss = [] \<Longrightarrow> 0 \<le> aIndex \<Longrightarrow> ss_Get zero ss aIndex = Inr (zero, False)"
  by (simp add: ss_Get_def)

lemma sm_Get_empty:
  "sm_Get zero (NewSortedMap aSafe) aKey = (zero, False)"
  by (simp add: sm_Get_def NewSortedMap_def)

text \<open>
  Claim C9. \<^verbatim>\<open>Get\<close> on an empty container returns found = false for any input (any index
  for the sorted slice, any key for the map); on any sorted slice \<^verbatim>\<open>Get(index)\<close> returns
  found = false when the index is at least the length, and the stored element with
  found = true at an existing position.
  The lemmas above show this for every key of the empty map and for every index from 0 on.
  For a negative index the code does not return: the only test is
  \<^verbatim>\<open>aIndex < len(ss.data)\<close>, which holds, and \<^verbatim>\<open>ss.data[aIndex]\<close> panics. The
  theorem evaluates \<^verbatim>\<open>Get(-1)\<close> on the empty slice that \<^verbatim>\<open>NewSlice\<close> builds.
\<close>

theorem ss_Get_empty_negative_index:
  "ss_Get (0::int) (NewSlice [] False) (- 1) = Inl IndexOutOfRange"
  by code_simp

text \<open>
  Claim C10. \<^verbatim>\<open>Get\<close> of the sorted slice guards the upper bound of the index only: on
  every non-empty slice a negative index passes the test \<^verbatim>\<open>aIndex < len(ss.data)\<close> and
  reaches the out-of-range access \<^verbatim>\<open>ss.data[aIndex]\<close>, a panic, where found = false is
  not returned.
\<close>

theorem ss_Get_negative_panics:
  "ss_data ss \<noteq> [] \<Longrightarrow> aIndex < 0 \<Longrightarrow> ss_Get zero ss aIndex = Inl IndexOutOfRange"
  by (simp add: ss_Get_def)

theorem ss_Get_negative_panics_witness:
  "ss_data (NewSlice [5, 3, 4, 1, 2 :: int] False) \<noteq> [] \<and> (- 1 :: int) < 0
   \<and> ss_Get 0 (NewSlice [5, 3, 4, 1, 2 :: int] False) (- 1) = Inl IndexOutOfRange"
proof -
  have h1: "ss_data (NewSlice [5, 3, 4, 1, 2 :: int] False) \<noteq> []" by code_simp
  have h2: "(- 1 :: int) < 0" by simp
  show ?thesis using h1 h2 ss_Get_negative_panics [OF h1 h2, of 0] by simp
qed

section \<open>Facts about the methods of TSortedMap\<close>

lemma first_index_None: "first_index ks k = None \<longleftrightarrow> k \<notin> set ks"
  by (induction ks) auto

lemma first_index_Some:
  "first_index ks k = Some i \<Longrightarrow> i < length ks \<and> ks ! i = k"
  by (induction ks arbitrary: i) (auto split: if_splits)

lemma first_index_remove1:
  "first_index ks k = Some i \<Longrightarrow> take i ks @ drop (i + 1) ks = remove1 k ks"
  by (induction ks arbitrary: i) (auto split: if_splits)

lemma sm_insert_fst: "fst (sm_insert k v sm) = True"
  by (simp add: sm_insert_def Let_def)

lemma sm_insert_data: "sm_data (snd (sm_insert k v sm)) = (sm_data sm)(k \<mapsto> v)"
  by (simp add: sm_insert_def Let_def)

lemma sm_insert_safe: "sm_safe (snd (sm_insert k v sm)) = sm_safe sm"
  by (simp add: sm_insert_def Let_def)

lemma sm_insert_present:
  "sm_data sm k \<noteq> None \<Longrightarrow> sm_insert k v sm = (True, sm\<lparr>sm_data := (sm_data sm)(k \<mapsto> v)\<rparr>)"
  by (simp add: sm_insert_def)

lemma sm_insert_keys_absent:
  assumes "sorted (sm_keys sm)" "k \<notin> set (sm_keys sm)" "sm_data sm k = None"
  shows "sm_keys (snd (sm_insert k v sm)) = insort k (sm_keys sm)"
proof (cases "sm_keys sm = []")
  case True
  with assms(3) show ?thesis by (simp add: sm_insert_def Let_def)
next
  case False
  let ?ks = "sm_keys sm"
  define r where "r = search_loop (\<lambda>h. \<not> ?ks ! h < k) 0 (length ?ks)"
  have S: "Search (length ?ks) (\<lambda>i. ?ks ! i \<ge> k) = r"
    by (simp add: Search_ge_eq r_def)
  from search_loop_sorted [OF assms(1), of k]
  have r: "r \<le> length ?ks" and lo: "\<forall>i<r. ?ks ! i < k"
    and hi: "\<forall>i. r \<le> i \<and> i < length ?ks \<longrightarrow> k \<le> ?ks ! i"
    by (simp_all add: r_def)
  have ins: "take r ?ks @ k # drop r ?ks = insort k ?ks"
    using r lo hi by (rule insert_at_partition)
  show ?thesis
  proof (cases "r = length ?ks")
    case True
    with ins have "?ks @ [k] = insort k ?ks" by simp
    with False assms(3) S True show ?thesis by (simp add: sm_insert_def Let_def)
  next
    case rn: False
    with r have rl: "r < length ?ks" by simp
    then have "?ks ! r \<noteq> k" using assms(2) by (metis nth_mem)
    moreover have "(copy_within (?ks @ [k]) (r + 1) r)[r := k] = insort k ?ks"
      using copy_within_shift [OF rl, of k] ins by simp
    ultimately show ?thesis using False assms(3) S rn by (simp add: sm_insert_def Let_def)
  qed
qed

lemma sm_insert_inv:
  assumes "sm_inv sm"
  shows "sm_inv (snd (sm_insert k v sm))"
proof (cases "sm_data sm k = None")
  case False
  with assms show ?thesis by (auto simp: sm_insert_present sm_inv_def)
next
  case True
  with assms have nin: "k \<notin> set (sm_keys sm)" by (auto simp: sm_inv_def)
  from assms have so: "sorted (sm_keys sm)" and di: "distinct (sm_keys sm)"
    by (simp_all add: sm_inv_def strict_sorted_iff)
  have ks: "sm_keys (snd (sm_insert k v sm)) = insort k (sm_keys sm)"
    using so nin True by (rule sm_insert_keys_absent)
  show ?thesis
    using assms so di nin
    by (simp add: sm_inv_def ks sm_insert_data strict_sorted_iff sorted_insort distinct_insort
        set_insort_key)
qed

lemma sm_delete_absent: "sm_data sm k = None \<Longrightarrow> sm_delete k sm = (False, sm)"
  by (simp add: sm_delete_def)

lemma sm_delete_present:
  "sm_data sm k \<noteq> None \<Longrightarrow>
   sm_delete k sm = (True, sm\<lparr>sm_data := (sm_data sm)(k := None), sm_keys := remove1 k (sm_keys sm)\<rparr>)"
proof (cases "first_index (sm_keys sm) k")
  case None
  assume "sm_data sm k \<noteq> None"
  moreover from None have "remove1 k (sm_keys sm) = sm_keys sm"
    by (simp add: first_index_None remove1_idem)
  ultimately show ?thesis using None by (simp add: sm_delete_def)
next
  case (Some i)
  assume "sm_data sm k \<noteq> None"
  then show ?thesis using Some first_index_remove1 [OF Some] by (simp add: sm_delete_def)
qed

lemma sm_delete_inv:
  assumes "sm_inv sm"
  shows "sm_inv (snd (sm_delete k sm))"
proof (cases "sm_data sm k = None")
  case True
  with assms show ?thesis by (simp add: sm_delete_absent)
next
  case False
  from assms have "distinct (sm_keys sm)" by (simp add: sm_inv_def strict_sorted_iff)
  with assms False show ?thesis
    by (auto simp: sm_delete_present sm_inv_def strict_sorted_iff sorted_remove1)
qed

lemma sm_rename_refused:
  "sm_data sm new \<noteq> None \<or> sm_data sm old = None \<or> old = new \<Longrightarrow>
   sm_rename old new sm = (False, sm)"
  by (auto simp: sm_rename_def split: option.splits)

lemma sm_rename_done:
  assumes "sm_data sm new = None" "sm_data sm old = Some v" "old \<noteq> new"
  shows "fst (sm_rename old new sm) = True"
    and "sm_data (snd (sm_rename old new sm)) = ((sm_data sm)(old := None))(new \<mapsto> v)"
    and "sm_safe (snd (sm_rename old new sm)) = sm_safe sm"
  using assms by (simp_all add: sm_rename_def Let_def)

lemma sm_rename_keys:
  assumes "sm_inv sm" "sm_data sm new = None" "sm_data sm old = Some v" "old \<noteq> new"
  shows "sm_keys (snd (sm_rename old new sm)) = insort new (remove1 old (sm_keys sm))"
    and "sm_inv (snd (sm_rename old new sm))"
proof -
  let ?ks = "sm_keys sm"
  from assms(1) have so: "sorted ?ks" and di: "distinct ?ks" and dom: "set ?ks = dom (sm_data sm)"
    by (simp_all add: sm_inv_def strict_sorted_iff)
  from dom assms(2,3) have oin: "old \<in> set ?ks" and nin: "new \<notin> set ?ks" by auto
  from oin obtain i where fi: "first_index ?ks old = Some i"
    by (cases "first_index ?ks old") (simp_all add: first_index_None)
  from first_index_Some [OF fi] have i: "i < length ?ks" "?ks ! i = old" by simp_all
  have ks: "sm_keys (snd (sm_rename old new sm)) = sort (?ks[i := new])"
    using assms(2-4) fi by (simp add: sm_rename_def Let_def slices_Sort_def)
  have set_upd: "set (?ks[i := new]) = insert new (set ?ks - {old})"
    using di i by (simp add: set_update_distinct)
  have di_upd: "distinct (?ks[i := new])"
    using di nin by (simp add: distinct_list_update)
  have "sort (?ks[i := new]) = insort new (remove1 old ?ks)"
  proof (rule sorted_distinct_set_unique)
    show "sorted (sort (?ks[i := new]))" by simp
    show "distinct (sort (?ks[i := new]))" using di_upd by simp
    show "sorted (insort new (remove1 old ?ks))" using so by (simp add: sorted_insort sorted_remove1)
    show "distinct (insort new (remove1 old ?ks))" using di nin by (simp add: distinct_insort)
    show "set (sort (?ks[i := new])) = set (insort new (remove1 old ?ks))"
      using set_upd di by (simp add: set_insort_key)
  qed
  with ks show "sm_keys (snd (sm_rename old new sm)) = insort new (remove1 old ?ks)" by simp
  have "set (sort (?ks[i := new])) = dom (((sm_data sm)(old := None))(new \<mapsto> v))"
    using set_upd dom by auto
  then show "sm_inv (snd (sm_rename old new sm))"
    using di_upd by (simp add: sm_inv_def ks sm_rename_done(2) [OF assms(2-4)] strict_sorted_iff)
qed

lemma sm_rename_inv:
  assumes "sm_inv sm"
  shows "sm_inv (snd (sm_rename old new sm))"
proof (cases "sm_data sm new \<noteq> None \<or> sm_data sm old = None \<or> old = new")
  case True
  then show ?thesis using assms by (simp add: sm_rename_refused)
next
  case False
  then obtain v where "sm_data sm new = None" "sm_data sm old = Some v" "old \<noteq> new" by auto
  with assms show ?thesis by (rule sm_rename_keys(2))
qed

lemma NewSortedMap_inv: "sm_inv (NewSortedMap aSafe)"
  by (simp add: sm_inv_def NewSortedMap_def)

lemma sm_Clear_inv: "sm_inv (sm_Clear sm)"
  by (simp add: sm_inv_def sm_Clear_def)

lemma sm_step_inv: "sm_inv sm \<Longrightarrow> sm_inv (sm_step sm p)"
  by (cases p)
     (simp_all add: sm_Insert_def sm_Delete_def sm_Rename_def sm_insert_inv sm_delete_inv
        sm_rename_inv sm_Clear_inv)

lemma sm_run_inv: "sm_inv sm \<Longrightarrow> sm_inv (sm_run sm ps)"
  unfolding sm_run_def by (induction ps arbitrary: sm) (simp_all add: sm_step_inv)

lemma sm_Insert_twice:
  "sm_Insert k v (snd (sm_Insert k v sm)) = (True, snd (sm_Insert k v sm))"
proof -
  let ?sm1 = "snd (sm_insert k v sm)"
  have d: "sm_data ?sm1 = (sm_data sm)(k \<mapsto> v)" by (rule sm_insert_data)
  then have "sm_data ?sm1 k \<noteq> None" by simp
  then have "sm_insert k v ?sm1 = (True, ?sm1\<lparr>sm_data := (sm_data ?sm1)(k \<mapsto> v)\<rparr>)"
    by (rule sm_insert_present)
  moreover have "(sm_data ?sm1)(k \<mapsto> v) = sm_data ?sm1" using d by simp
  ultimately show ?thesis by (simp add: sm_Insert_def)
qed

section \<open>Inserting twice\<close>

text \<open>
  Claim C5. Inserting the same element into the sorted slice, or the same key and value
  into the map, twice in a row leaves the state after the second call as it was after the
  first; the slice returns false the second time, the map true both times.
  The map does so (lemma \<open>sm_Insert_twice\<close>), and so does the slice when the first call
  left it sorted (lemma \<open>ss_insert_present\<close>). When the element is absent and not above
  every stored element, the first \<^verbatim>\<open>Insert\<close> appends it behind larger elements, the binary
  search of the second \<^verbatim>\<open>Insert\<close> does not find it, and it is appended again. The theorem
  evaluates \<^verbatim>\<open>Insert(0); Insert(0)\<close> on \<open>[1, 2, 3]\<close>: both calls return true and the
  slice grows to \<open>[1, 2, 3, 0, 0]\<close>.
\<close>

theorem ss_Insert_twice_changes:
  "ss_Insert (0::int) (NewSlice [1, 2, 3] False)
     = (True, \<lparr>ss_data = [1, 2, 3, 0], ss_safe = False\<rparr>)
   \<and> ss_Insert (0::int) (snd (ss_Insert 0 (NewSlice [1, 2, 3] False)))
     = (True, \<lparr>ss_data = [1, 2, 3, 0, 0], ss_safe = False\<rparr>)"
  by code_simp

section \<open>The key order of the map\<close>

text \<open>
  Claim C6. After \<^verbatim>\<open>NewSortedMap\<close> and any finite sequence of \<^verbatim>\<open>Insert\<close>,
  \<^verbatim>\<open>Delete\<close>, \<^verbatim>\<open>Rename\<close> and \<^verbatim>\<open>Clear\<close>, \<^verbatim>\<open>Keys()\<close> is sorted ascending, has no
  duplicates, and holds exactly the keys of the map \<^verbatim>\<open>data\<close>.
\<close>

theorem sm_Keys_sorted_key_set:
  "sorted (sm_Keys (sm_run (NewSortedMap aSafe) ps))
   \<and> distinct (sm_Keys (sm_run (NewSortedMap aSafe) ps))
   \<and> set (sm_Keys (sm_run (NewSortedMap aSafe) ps)) = dom (sm_data (sm_run (NewSortedMap aSafe) ps))"
proof -
  have "sm_inv (sm_run (NewSortedMap aSafe) ps)"
    by (rule sm_run_inv) (rule NewSortedMap_inv)
  then show ?thesis by (simp add: sm_inv_def sm_Keys_def strict_sorted_iff)
qed

theorem sm_Keys_sorted_key_set_witness:
  "sm_Keys (sm_run (NewSortedMap False)
      [MInsert (2::int) ''b'', MInsert 1 ''a'', MInsert 3 ''c'', MRename 1 9, MDelete 3, MInsert 2 ''d''])
     = [2, 9]
   \<and> dom (sm_data (sm_run (NewSortedMap False)
      [MInsert (2::int) ''b'', MInsert 1 ''a'', MInsert 3 ''c'', MRename 1 9, MDelete 3, MInsert 2 ''d'']))
     = {2, 9}"
proof -
  let ?ps = "[MInsert (2::int) ''b'', MInsert 1 ''a'', MInsert 3 ''c'', MRename 1 9, MDelete 3,
    MInsert 2 ''d'']"
  have v: "sm_Keys (sm_run (NewSortedMap False) ?ps) = [2, 9]" by code_simp
  from sm_Keys_sorted_key_set [of False ?ps]
  have "set (sm_Keys (sm_run (NewSortedMap False) ?ps)) = dom (sm_data (sm_run (NewSortedMap False) ?ps))"
    by blast
  with v show ?thesis by simp
qed

section \<open>Rename and Insert of the map\<close>

text \<open>
  Claim C7. \<^verbatim>\<open>Rename(oldKey, newKey)\<close> of the map returns false and leaves the map as it
  is when \<open>newKey\<close> exists, or \<open>oldKey\<close> is absent, or the two are equal. Otherwise it
  returns true and moves the value from \<open>oldKey\<close> to \<open>newKey\<close>, so that \<^verbatim>\<open>Get(newKey)\<close>
  gives the old value with found = true and \<^verbatim>\<open>Get(oldKey)\<close> gives found = false; and on
  a map that satisfies the invariant \<open>sm_inv\<close> (every map reached from \<^verbatim>\<open>NewSortedMap\<close>
  does, lemma \<open>sm_run_inv\<close>) \<open>oldKey\<close> leaves the key order and \<open>newKey\<close> is put at its
  sorted position.
\<close>

theorem sm_Rename_spec:
  "(sm_data sm new \<noteq> None \<or> sm_data sm old = None \<or> old = new
      \<longrightarrow> sm_Rename old new sm = (False, sm))
   \<and> (sm_data sm new = None \<and> sm_data sm old = Some v \<and> old \<noteq> new
      \<longrightarrow> fst (sm_Rename old new sm) = True
        \<and> sm_data (snd (sm_Rename old new sm)) = ((sm_data sm)(old := None))(new \<mapsto> v)
        \<and> sm_Get zero (snd (sm_Rename old new sm)) new = (v, True)
        \<and> sm_Get zero (snd (sm_Rename old new sm)) old = (zero, False))
   \<and> (sm_inv sm \<and> sm_data sm new = None \<and> sm_data sm old = Some v \<and> old \<noteq> new
      \<longrightarrow> sm_Keys (snd (sm_Rename old new sm)) = insort new (remove1 old (sm_keys sm))
        \<and> sorted_wrt (<) (sm_Keys (snd (sm_Rename old new sm)))
        \<and> set (sm_Keys (snd (sm_Rename old new sm))) = insert new (set (sm_keys sm) - {old}))"
proof (intro conjI impI)
  assume "sm_data sm new \<noteq> None \<or> sm_data sm old = None \<or> old = new"
  then show "sm_Rename old new sm = (False, sm)"
    by (simp add: sm_Rename_def sm_rename_refused)
next
  assume a: "sm_data sm new = None \<and> sm_data sm old = Some v \<and> old \<noteq> new"
  then have d: "sm_data (snd (sm_rename old new sm)) = ((sm_data sm)(old := None))(new \<mapsto> v)"
    by (intro sm_rename_done(2)) simp_all
  from a show "fst (sm_Rename old new sm) = True"
    by (simp add: sm_Rename_def sm_rename_done(1))
  from d show "sm_data (snd (sm_Rename old new sm)) = ((sm_data sm)(old := None))(new \<mapsto> v)"
    by (simp add: sm_Rename_def)
  from d show "sm_Get zero (snd (sm_Rename old new sm)) new = (v, True)"
    by (simp add: sm_Rename_def sm_Get_def)
  from d a show "sm_Get zero (snd (sm_Rename old new sm)) old = (zero, False)"
    by (simp add: sm_Rename_def sm_Get_def)
next
  assume a: "sm_inv sm \<and> sm_data sm new = None \<and> sm_data sm old = Some v \<and> old \<noteq> new"
  then have ks: "sm_keys (snd (sm_rename old new sm)) = insort new (remove1 old (sm_keys sm))"
    by (intro sm_rename_keys(1)) simp_all
  from a have inv: "sm_inv (snd (sm_rename old new sm))"
    by (intro sm_rename_inv) simp
  from a have di: "distinct (sm_keys sm)" by (simp add: sm_inv_def strict_sorted_iff)
  from ks show "sm_Keys (snd (sm_Rename old new sm)) = insort new (remove1 old (sm_keys sm))"
    by (simp add: sm_Rename_def sm_Keys_def)
  from inv show "sorted_wrt (<) (sm_Keys (snd (sm_Rename old new sm)))"
    by (simp add: sm_Rename_def sm_Keys_def sm_inv_def)
  from ks di show "set (sm_Keys (snd (sm_Rename old new sm))) = insert new (set (sm_keys sm) - {old})"
    by (simp add: sm_Rename_def sm_Keys_def set_insort_key)
qed

theorem sm_Rename_spec_witness:
  "sm_inv (sm_run (NewSortedMap False) [MInsert (2::int) ''b'', MInsert 1 ''a'', MInsert 3 ''c''])
   \<and> sm_data (sm_run (NewSortedMap False) [MInsert (2::int) ''b'', MInsert 1 ''a'', MInsert 3 ''c'']) 9
       = None
   \<and> sm_data (sm_run (NewSortedMap False) [MInsert (2::int) ''b'', MInsert 1 ''a'', MInsert 3 ''c'']) 1
       = Some ''a''
   \<and> (1::int) \<noteq> 9
   \<and> fst (sm_Rename 1 9
        (sm_run (NewSortedMap False) [MInsert (2::int) ''b'', MInsert 1 ''a'', MInsert 3 ''c''])) = True
   \<and> sm_Get [] (snd (sm_Rename 1 9
        (sm_run (NewSortedMap False) [MInsert (2::int) ''b'', MInsert 1 ''a'', MInsert 3 ''c'']))) 9
       = (''a'', True)
   \<and> sm_Get [] (snd (sm_Rename 1 9
        (sm_run (NewSortedMap False) [MInsert (2::int) ''b'', MInsert 1 ''a'', MInsert 3 ''c'']))) 1
       = ([], False)
   \<and> sm_Keys (snd (sm_Rename 1 9
        (sm_run (NewSortedMap False) [MInsert (2::int) ''b'', MInsert 1 ''a'', MInsert 3 ''c''])))
       = [2, 3, 9]
   \<and> sm_data (sm_run (NewSortedMap False) [MInsert (2::int) ''b'', MInsert 1 ''a'', MInsert 3 ''c'']) 3
       \<noteq> None
   \<and> sm_Rename 2 3
        (sm_run (NewSortedMap False) [MInsert (2::int) ''b'', MInsert 1 ''a'', MInsert 3 ''c''])
       = (False, sm_run (NewSortedMap False) [MInsert (2::int) ''b'', MInsert 1 ''a'', MInsert 3 ''c''])"
proof -
  let ?sm = "sm_run (NewSortedMap False) [MInsert (2::int) ''b'', MInsert 1 ''a'', MInsert 3 ''c'']"
  have inv: "sm_inv ?sm" by (rule sm_run_inv) (rule NewSortedMap_inv)
  have n9: "sm_data ?sm 9 = None" by code_simp
  have s1: "sm_data ?sm 1 = Some ''a''" by code_simp
  have s3: "sm_data ?sm 3 \<noteq> None" by code_simp
  have ne: "(1::int) \<noteq> 9" by simp
  have ks: "insort 9 (remove1 1 (sm_keys ?sm)) = [2, 3, 9]" by code_simp
  note moved = sm_Rename_spec [of ?sm 9 1 "''a''" "[]"]
  note refused = sm_Rename_spec [of ?sm 3 2 "''b''" "[]"]
  from moved inv n9 s1 ne
  have "fst (sm_Rename 1 9 ?sm) = True"
    and "sm_Get [] (snd (sm_Rename 1 9 ?sm)) 9 = (''a'', True)"
    and "sm_Get [] (snd (sm_Rename 1 9 ?sm)) 1 = ([], False)"
    and "sm_Keys (snd (sm_Rename 1 9 ?sm)) = insort 9 (remove1 1 (sm_keys ?sm))"
    by blast+
  moreover from refused s3 have "sm_Rename 2 3 ?sm = (False, ?sm)" by blast
  ultimately show ?thesis using inv n9 s1 s3 ne ks by simp
qed

text \<open>
  Claim C8. \<^verbatim>\<open>Insert(key, value)\<close> of the map always returns true and associates the value
  with the key. When the key exists the key order is left as it is; when it is absent (on
  a map that satisfies \<open>sm_inv\<close>) the key is added at its sorted position.
\<close>

theorem sm_Insert_spec:
  "fst (sm_Insert k v sm) = True
   \<and> sm_data (snd (sm_Insert k v sm)) = (sm_data sm)(k \<mapsto> v)
   \<and> sm_safe (snd (sm_Insert k v sm)) = sm_safe sm
   \<and> (sm_data sm k \<noteq> None \<longrightarrow> sm_keys (snd (sm_Insert k v sm)) = sm_keys sm)
   \<and> (sm_inv sm \<and> sm_data sm k = None
      \<longrightarrow> sm_keys (snd (sm_Insert k v sm)) = insort k (sm_keys sm)
        \<and> sorted_wrt (<) (sm_keys (snd (sm_Insert k v sm)))
        \<and> set (sm_keys (snd (sm_Insert k v sm))) = insert k (set (sm_keys sm)))"
proof (intro conjI impI)
  show "fst (sm_Insert k v sm) = True" by (simp add: sm_Insert_def sm_insert_fst)
  show "sm_data (snd (sm_Insert k v sm)) = (sm_data sm)(k \<mapsto> v)"
    by (simp add: sm_Insert_def sm_insert_data)
  show "sm_safe (snd (sm_Insert k v sm)) = sm_safe sm"
    by (simp add: sm_Insert_def sm_insert_safe)
next
  assume "sm_data sm k \<noteq> None"
  then show "sm_keys (snd (sm_Insert k v sm)) = sm_keys sm"
    by (simp add: sm_Insert_def sm_insert_present)
next
  assume a: "sm_inv sm \<and> sm_data sm k = None"
  then have so: "sorted (sm_keys sm)" and nin: "k \<notin> set (sm_keys sm)"
    by (auto simp: sm_inv_def strict_sorted_iff)
  from a have none: "sm_data sm k = None" by simp
  have ks: "sm_keys (snd (sm_insert k v sm)) = insort k (sm_keys sm)"
    using so nin none by (rule sm_insert_keys_absent)
  from a have inv: "sm_inv (snd (sm_insert k v sm))" by (intro sm_insert_inv) simp
  from ks show "sm_keys (snd (sm_Insert k v sm)) = insort k (sm_keys sm)"
    by (simp add: sm_Insert_def)
  from inv show "sorted_wrt (<) (sm_keys (snd (sm_Insert k v sm)))"
    by (simp add: sm_Insert_def sm_inv_def)
  from ks show "set (sm_keys (snd (sm_Insert k v sm))) = insert k (set (sm_keys sm))"
    by (simp add: sm_Insert_def set_insort_key)
qed

theorem sm_Insert_spec_witness:
  "sm_inv (sm_run (NewSortedMap False) [MInsert (3::int) ''c'', MInsert 1 ''a''])
   \<and> sm_data (sm_run (NewSortedMap False) [MInsert (3::int) ''c'', MInsert 1 ''a'']) 2 = None
   \<and> sm_data (sm_run (NewSortedMap False) [MInsert (3::int) ''c'', MInsert 1 ''a'']) 3 \<noteq> None
   \<and> fst (sm_Insert 2 ''b'' (sm_run (NewSortedMap False) [MInsert (3::int) ''c'', MInsert 1 ''a'']))
       = True
   \<and> sm_keys (snd (sm_Insert 2 ''b''
        (sm_run (NewSortedMap False) [MInsert (3::int) ''c'', MInsert 1 ''a''])))
       = [1, 2, 3]
   \<and> sm_data (snd (sm_Insert 2 ''b''
        (sm_run (NewSortedMap False) [MInsert (3::int) ''c'', MInsert 1 ''a'']))) 2
       = Some ''b''
   \<and> sm_keys (snd (sm_Insert 3 ''z''
        (sm_run (NewSortedMap False) [MInsert (3::int) ''c'', MInsert 1 ''a''])))
       = [1, 3]
   \<and> sm_data (snd (sm_Insert 3 ''z''
        (sm_run (NewSortedMap False) [MInsert (3::int) ''c'', MInsert 1 ''a'']))) 3
       = Some ''z''"
proof -
  let ?sm = "sm_run (NewSortedMap False) [MInsert (3::int) ''c'', MInsert 1 ''a'']"
  have inv: "sm_inv ?sm" by (rule sm_run_inv) (rule NewSortedMap_inv)
  have n2: "sm_data ?sm 2 = None" by code_simp
  have s3: "sm_data ?sm 3 \<noteq> None" by code_simp
  have ks: "insort 2 (sm_keys ?sm) = [1, 2, 3]" by code_simp
  have ks0: "sm_keys ?sm = [1, 3]" by code_simp
  note absent = sm_Insert_spec [of 2 "''b''" ?sm]
  note present = sm_Insert_spec [of 3 "''z''" ?sm]
  from absent inv n2
  have "fst (sm_Insert 2 ''b'' ?sm) = True"
    and "sm_keys (snd (sm_Insert 2 ''b'' ?sm)) = insort 2 (sm_keys ?sm)"
    and "sm_data (snd (sm_Insert 2 ''b'' ?sm)) = (sm_data ?sm)(2 \<mapsto> ''b'')"
    by blast+
  moreover from present s3
  have "sm_keys (snd (sm_Insert 3 ''z'' ?sm)) = sm_keys ?sm"
    and "sm_data (snd (sm_Insert 3 ''z'' ?sm)) = (sm_data ?sm)(3 \<mapsto> ''z'')"
    by blast+
  ultimately show ?thesis using inv n2 s3 ks ks0 by simp
qed

end
